theory Spec2Isabelle
  imports Main "HOL-Library.Char_ord"
begin

section \<open>Lexer\<close>

text \<open>Python exceptions that can escape the program, and the fatal \<open>syntax_error()\<close>.\<close>

datatype error = SyntaxError | OverflowError | IndexError | AttributeError

text \<open>The values of the enumeration \<open>Symbol\<close>; the variable \<open>sym\<close> holds them as integers.\<close>

definition DO_SYM :: nat where [simp]: "DO_SYM = 0"
definition ELSE_SYM :: nat where [simp]: "ELSE_SYM = 1"
definition IF_SYM :: nat where [simp]: "IF_SYM = 2"
definition WHILE_SYM :: nat where [simp]: "WHILE_SYM = 3"
definition LBRA :: nat where [simp]: "LBRA = 4"
definition RBRA :: nat where [simp]: "RBRA = 5"
definition LPAR :: nat where [simp]: "LPAR = 6"
definition RPAR :: nat where [simp]: "RPAR = 7"
definition PLUS :: nat where [simp]: "PLUS = 8"
definition MINUS :: nat where [simp]: "MINUS = 9"
definition LESS :: nat where [simp]: "LESS = 10"
definition SEMI :: nat where [simp]: "SEMI = 11"
definition EQUAL :: nat where [simp]: "EQUAL = 12"
definition INT_SYM :: nat where [simp]: "INT_SYM = 13"
definition ID :: nat where [simp]: "ID = 14"
definition EOI :: nat where [simp]: "EOI = 15"

definition words :: "string option list" where
  "words = [Some ''do'', Some ''else'', Some ''if'', Some ''while'', None]"

text \<open>
  The lexer's global variables together with the unread rest of standard input.
  \<open>ch = None\<close> stands for the marker string \<open>"EOF"\<close> that \<open>next_ch\<close> stores at the
  end of the input.
\<close>

record lexer =
  ch :: "char option"
  inp :: string
  sym :: nat
  int_val :: int
  id_name :: string

definition ord :: "char \<Rightarrow> int" where
  "ord c = int (of_char c)"

definition next_ch :: "lexer \<Rightarrow> lexer" where
  "next_ch l = (case inp l of [] \<Rightarrow> l\<lparr>ch := None\<rparr> | c # cs \<Rightarrow> l\<lparr>ch := Some c, inp := cs\<rparr>)"

text \<open>Characters not yet consumed: the current one and the unread input.\<close>

definition remaining :: "lexer \<Rightarrow> nat" where
  "remaining l = length (inp l) + (if ch l = None then 0 else 1)"

definition is_digit :: "char option \<Rightarrow> bool" where
  "is_digit c = (case c of None \<Rightarrow> False | Some d \<Rightarrow> CHR ''0'' \<le> d \<and> d \<le> CHR ''9'')"

definition is_lower :: "char option \<Rightarrow> bool" where
  "is_lower c = (case c of None \<Rightarrow> False | Some d \<Rightarrow> CHR ''a'' \<le> d \<and> d \<le> CHR ''z'')"

lemma remaining_next_ch: "ch l \<noteq> None \<Longrightarrow> remaining (next_ch l) < remaining l"
  by (auto simp: remaining_def next_ch_def split: list.splits)

text \<open>The loop \<open>while ch >= "0" and ch <= "9"\<close> of \<open>next_sym\<close>.\<close>

function scan_int :: "lexer \<Rightarrow> lexer" where
  "scan_int l =
     (if is_digit (ch l)
      then scan_int (next_ch (l\<lparr>int_val := int_val l * 10 + ord (the (ch l)) - ord CHR ''0''\<rparr>))
      else l)"
  by pat_completeness auto
termination
  by (relation "measure remaining")
     (auto simp: is_digit_def remaining_def next_ch_def split: list.splits option.splits)

text \<open>The loop \<open>while (ch >= "a" and ch <= "z") or (ch == "_")\<close> of \<open>next_sym\<close>.\<close>

function scan_id :: "lexer \<Rightarrow> lexer" where
  "scan_id l =
     (if is_lower (ch l) \<or> ch l = Some CHR ''_''
      then scan_id (next_ch (l\<lparr>id_name := id_name l @ [the (ch l)]\<rparr>))
      else l)"
  by pat_completeness auto
termination
  by (relation "measure remaining")
     (auto simp: is_lower_def remaining_def next_ch_def split: list.splits option.splits)

text \<open>
  The loop \<open>while words[sym] != None and words[sym] != id_name: sym += 1\<close>. The list ends
  with \<open>None\<close>, so the search started at 0 never leaves it.
\<close>

function lookup_word :: "nat \<Rightarrow> string \<Rightarrow> nat" where
  "lookup_word k name =
     (if k < length words \<and> words ! k \<noteq> None \<and> words ! k \<noteq> Some name
      then lookup_word (k + 1) name else k)"
  by pat_completeness auto
termination
  by (relation "measure (\<lambda>(k, name). length words - k)") auto

function next_sym :: "lexer \<Rightarrow> error + lexer" where
  "next_sym l =
     (if ch l = Some CHR '' '' \<or> ch l = Some CHR 0x0A then next_sym (next_ch l)
      else if ch l = None then Inr (l\<lparr>sym := EOI\<rparr>)
      else if ch l = Some CHR ''{'' then Inr ((next_ch l)\<lparr>sym := LBRA\<rparr>)
      else if ch l = Some CHR ''}'' then Inr ((next_ch l)\<lparr>sym := RBRA\<rparr>)
      else if ch l = Some CHR ''('' then Inr ((next_ch l)\<lparr>sym := LPAR\<rparr>)
      else if ch l = Some CHR '')'' then Inr ((next_ch l)\<lparr>sym := RPAR\<rparr>)
      else if ch l = Some CHR ''+'' then Inr ((next_ch l)\<lparr>sym := PLUS\<rparr>)
      else if ch l = Some CHR ''-'' then Inr ((next_ch l)\<lparr>sym := MINUS\<rparr>)
      else if ch l = Some CHR ''<'' then Inr ((next_ch l)\<lparr>sym := LESS\<rparr>)
      else if ch l = Some CHR '';'' then Inr ((next_ch l)\<lparr>sym := SEMI\<rparr>)
      else if ch l = Some CHR ''='' then Inr ((next_ch l)\<lparr>sym := EQUAL\<rparr>)
      else if is_digit (ch l) then Inr ((scan_int (l\<lparr>int_val := 0\<rparr>))\<lparr>sym := INT_SYM\<rparr>)
      else if is_lower (ch l) then
        (let l1 = scan_id (l\<lparr>id_name := []\<rparr>);
             k = lookup_word 0 (id_name l1)
         in if words ! k = None
            then (if length (id_name l1) = 1 then Inr (l1\<lparr>sym := ID\<rparr>) else Inl SyntaxError)
            else Inr (l1\<lparr>sym := k\<rparr>))
      else Inl SyntaxError)"
  by pat_completeness auto
termination
  by (relation "measure remaining")
     (auto simp: remaining_def next_ch_def split: list.splits)

declare scan_int.simps [simp del] scan_id.simps [simp del] lookup_word.simps [simp del]
  next_sym.simps [simp del]

section \<open>Parser\<close>

text \<open>
  A \<open>Node\<close> carries a kind and the fields the kind uses; the kinds are the
  constructors. The target of an assignment is kept as a node, as in the source.
\<close>

datatype node =
    VAR int
  | CST int
  | ADD node node
  | SUB node node
  | LT node node
  | SET node node
  | IF1 node node
  | IF2 node node node
  | WHILE node node
  | DO node node
  | EMPTY
  | SEQ node node
  | EXPR node
  | PROG node

fun is_VAR :: "node \<Rightarrow> bool" where
  "is_VAR (VAR v) = True"
| "is_VAR x = False"

text \<open>
  The parsing procedures call each other recursively, so each takes a bound on the depth
  of the calls and returns \<open>None\<close> when the bound is reached. \<open>Some (Inl e)\<close> is the
  exception \<open>e\<close>, \<open>Some (Inr (x, l))\<close> the node returned and the lexer state left behind.
  The \<open>while\<close> loops of \<open>_sum\<close> and of the block statement are \<open>sum_loop\<close> and
  \<open>block_loop\<close>.
\<close>

type_synonym 'a parsed = "(error + 'a \<times> lexer) option"

fun paren_expr :: "nat \<Rightarrow> lexer \<Rightarrow> node parsed"
  and term_rule :: "nat \<Rightarrow> lexer \<Rightarrow> node parsed"
  and sum_loop :: "nat \<Rightarrow> node \<Rightarrow> lexer \<Rightarrow> node parsed"
  and sum_rule :: "nat \<Rightarrow> lexer \<Rightarrow> node parsed"
  and test :: "nat \<Rightarrow> lexer \<Rightarrow> node parsed"
  and expr :: "nat \<Rightarrow> lexer \<Rightarrow> node parsed"
where
  "paren_expr 0 l = None"
| "paren_expr (Suc n) l =
     (if sym l = LPAR then
        (case next_sym l of Inl e \<Rightarrow> Some (Inl e) | Inr l1 \<Rightarrow>
          (case expr n l1 of None \<Rightarrow> None | Some (Inl e) \<Rightarrow> Some (Inl e)
           | Some (Inr (x, l2)) \<Rightarrow>
               if sym l2 = RPAR then
                 (case next_sym l2 of Inl e \<Rightarrow> Some (Inl e) | Inr l3 \<Rightarrow> Some (Inr (x, l3)))
               else Some (Inl SyntaxError)))
      else Some (Inl SyntaxError))"
| "term_rule 0 l = None"
| "term_rule (Suc n) l =
     (if sym l = ID then
        (case id_name l of [] \<Rightarrow> Some (Inl IndexError) | c # cs \<Rightarrow>
          (case next_sym l of Inl e \<Rightarrow> Some (Inl e)
           | Inr l1 \<Rightarrow> Some (Inr (VAR (ord c - ord CHR ''a''), l1))))
      else if sym l = INT_SYM then
        (case next_sym l of Inl e \<Rightarrow> Some (Inl e)
         | Inr l1 \<Rightarrow> Some (Inr (CST (int_val l), l1)))
      else paren_expr n l)"
| "sum_loop 0 x l = None"
| "sum_loop (Suc n) x l =
     (if sym l = PLUS \<or> sym l = MINUS then
        (case next_sym l of Inl e \<Rightarrow> Some (Inl e) | Inr l1 \<Rightarrow>
          (case term_rule n l1 of None \<Rightarrow> None | Some (Inl e) \<Rightarrow> Some (Inl e)
           | Some (Inr (y, l2)) \<Rightarrow>
               sum_loop n (if sym l = PLUS then ADD x y else SUB x y) l2))
      else Some (Inr (x, l)))"
| "sum_rule 0 l = None"
| "sum_rule (Suc n) l =
     (case term_rule n l of None \<Rightarrow> None | Some (Inl e) \<Rightarrow> Some (Inl e)
      | Some (Inr (x, l1)) \<Rightarrow> sum_loop n x l1)"
| "test 0 l = None"
| "test (Suc n) l =
     (case sum_rule n l of None \<Rightarrow> None | Some (Inl e) \<Rightarrow> Some (Inl e)
      | Some (Inr (x, l1)) \<Rightarrow>
          if sym l1 = LESS then
            (case next_sym l1 of Inl e \<Rightarrow> Some (Inl e) | Inr l2 \<Rightarrow>
              (case sum_rule n l2 of None \<Rightarrow> None | Some (Inl e) \<Rightarrow> Some (Inl e)
               | Some (Inr (y, l3)) \<Rightarrow> Some (Inr (LT x y, l3))))
          else Some (Inr (x, l1)))"
| "expr 0 l = None"
| "expr (Suc n) l =
     (if sym l \<noteq> ID then test n l
      else
        (case test n l of None \<Rightarrow> None | Some (Inl e) \<Rightarrow> Some (Inl e)
         | Some (Inr (x, l1)) \<Rightarrow>
             if is_VAR x \<and> sym l1 = EQUAL then
               (case next_sym l1 of Inl e \<Rightarrow> Some (Inl e) | Inr l2 \<Rightarrow>
                 (case expr n l2 of None \<Rightarrow> None | Some (Inl e) \<Rightarrow> Some (Inl e)
                  | Some (Inr (y, l3)) \<Rightarrow> Some (Inr (SET x y, l3))))
             else Some (Inr (x, l1))))"

fun statement :: "nat \<Rightarrow> lexer \<Rightarrow> node parsed"
  and block_loop :: "nat \<Rightarrow> node \<Rightarrow> lexer \<Rightarrow> node parsed"
where
  "statement 0 l = None"
| "statement (Suc n) l =
     (if sym l = IF_SYM then
        (case next_sym l of Inl e \<Rightarrow> Some (Inl e) | Inr l1 \<Rightarrow>
          (case paren_expr n l1 of None \<Rightarrow> None | Some (Inl e) \<Rightarrow> Some (Inl e)
           | Some (Inr (x1, l2)) \<Rightarrow>
            (case statement n l2 of None \<Rightarrow> None | Some (Inl e) \<Rightarrow> Some (Inl e)
             | Some (Inr (x2, l3)) \<Rightarrow>
                 if sym l3 = ELSE_SYM then
                   (case next_sym l3 of Inl e \<Rightarrow> Some (Inl e) | Inr l4 \<Rightarrow>
                     (case statement n l4 of None \<Rightarrow> None | Some (Inl e) \<Rightarrow> Some (Inl e)
                      | Some (Inr (x3, l5)) \<Rightarrow> Some (Inr (IF2 x1 x2 x3, l5))))
                 else Some (Inr (IF1 x1 x2, l3)))))
      else if sym l = WHILE_SYM then
        (case next_sym l of Inl e \<Rightarrow> Some (Inl e) | Inr l1 \<Rightarrow>
          (case paren_expr n l1 of None \<Rightarrow> None | Some (Inl e) \<Rightarrow> Some (Inl e)
           | Some (Inr (x1, l2)) \<Rightarrow>
            (case statement n l2 of None \<Rightarrow> None | Some (Inl e) \<Rightarrow> Some (Inl e)
             | Some (Inr (x2, l3)) \<Rightarrow> Some (Inr (WHILE x1 x2, l3)))))
      else if sym l = DO_SYM then
        (case next_sym l of Inl e \<Rightarrow> Some (Inl e) | Inr l1 \<Rightarrow>
          (case statement n l1 of None \<Rightarrow> None | Some (Inl e) \<Rightarrow> Some (Inl e)
           | Some (Inr (x1, l2)) \<Rightarrow>
               if sym l2 = WHILE_SYM then
                 (case next_sym l2 of Inl e \<Rightarrow> Some (Inl e) | Inr l3 \<Rightarrow>
                   (case paren_expr n l3 of None \<Rightarrow> None | Some (Inl e) \<Rightarrow> Some (Inl e)
                    | Some (Inr (x2, l4)) \<Rightarrow>
                        if sym l4 = SEMI then
                          (case next_sym l4 of Inl e \<Rightarrow> Some (Inl e)
                           | Inr l5 \<Rightarrow> Some (Inr (DO x1 x2, l5)))
                        else Some (Inl SyntaxError)))
               else Some (Inl SyntaxError)))
      else if sym l = SEMI then
        (case next_sym l of Inl e \<Rightarrow> Some (Inl e) | Inr l1 \<Rightarrow> Some (Inr (EMPTY, l1)))
      else if sym l = LBRA then
        (case next_sym l of Inl e \<Rightarrow> Some (Inl e) | Inr l1 \<Rightarrow> block_loop n EMPTY l1)
      else
        (case expr n l of None \<Rightarrow> None | Some (Inl e) \<Rightarrow> Some (Inl e)
         | Some (Inr (x1, l1)) \<Rightarrow>
             if sym l1 = SEMI then
               (case next_sym l1 of Inl e \<Rightarrow> Some (Inl e)
                | Inr l2 \<Rightarrow> Some (Inr (EXPR x1, l2)))
             else Some (Inl SyntaxError)))"
| "block_loop 0 x l = None"
| "block_loop (Suc n) x l =
     (if sym l \<noteq> RBRA then
        (case statement n l of None \<Rightarrow> None | Some (Inl e) \<Rightarrow> Some (Inl e)
         | Some (Inr (y, l1)) \<Rightarrow> block_loop n (SEQ x y) l1)
      else
        (case next_sym l of Inl e \<Rightarrow> Some (Inl e) | Inr l1 \<Rightarrow> Some (Inr (x, l1))))"

definition program :: "nat \<Rightarrow> lexer \<Rightarrow> (error + node) option" where
  "program n l =
     (case next_sym l of Inl e \<Rightarrow> Some (Inl e) | Inr l1 \<Rightarrow>
       (case statement n l1 of None \<Rightarrow> None | Some (Inl e) \<Rightarrow> Some (Inl e)
        | Some (Inr (x, l2)) \<Rightarrow>
            if sym l2 \<noteq> EOI then Some (Inl SyntaxError) else Some (Inr (PROG x))))"

text \<open>The lexer before the first call of \<open>next_sym\<close>: \<open>ch\<close> is a space.\<close>

definition init_lexer :: "string \<Rightarrow> lexer" where
  "init_lexer s = \<lparr>ch = Some CHR '' '', inp = s, sym = EOI, int_val = 0, id_name = []\<rparr>"

section \<open>Code generator\<close>

text \<open>The values of the enumeration \<open>Instruction\<close>, as the bytes stored in the object code.\<close>

definition IFETCH :: int where [simp]: "IFETCH = 0"
definition ISTORE :: int where [simp]: "ISTORE = 1"
definition IPUSH :: int where [simp]: "IPUSH = 2"
definition IPOP :: int where [simp]: "IPOP = 3"
definition IADD :: int where [simp]: "IADD = 4"
definition ISUB :: int where [simp]: "ISUB = 5"
definition ILT :: int where [simp]: "ILT = 6"
definition JZ :: int where [simp]: "JZ = 7"
definition JNZ :: int where [simp]: "JNZ = 8"
definition JMP :: int where [simp]: "JMP = 9"
definition HALT :: int where [simp]: "HALT = 10"

text \<open>
  The buffer \<open>_object\<close> (an array of 1000 signed bytes, read back as integers) and the
  emission position \<open>here\<close>. Storing at a position outside the array raises IndexError;
  storing a value outside \<open>-128..127\<close> raises OverflowError.
\<close>

record cstate =
  object :: "int list"
  here :: nat

definition init_cstate :: cstate where
  "init_cstate = \<lparr>object = replicate 1000 0, here = 0\<rparr>"

definition g :: "int \<Rightarrow> cstate \<Rightarrow> error + cstate" where
  "g b s =
     (if length (object s) \<le> here s then Inl IndexError
      else if b < - 128 \<or> 127 < b then Inl OverflowError
      else Inr (s\<lparr>object := (object s)[here s := b], here := here s + 1\<rparr>))"

definition hole :: "cstate \<Rightarrow> nat \<times> cstate" where
  "hole s = (here s, s\<lparr>here := here s + 1\<rparr>)"

definition fix_jump :: "nat \<Rightarrow> nat \<Rightarrow> cstate \<Rightarrow> error + cstate" where
  "fix_jump src dst s =
     (if length (object s) \<le> src then Inl IndexError
      else if int dst - int src < - 128 \<or> 127 < int dst - int src then Inl OverflowError
      else Inr (s\<lparr>object := (object s)[src := int dst - int src]\<rparr>))"

text \<open>The attribute \<open>val\<close>, which only \<open>VAR\<close> and \<open>CST\<close> nodes have.\<close>

fun val :: "node \<Rightarrow> error + int" where
  "val (VAR v) = Inr v"
| "val (CST v) = Inr v"
| "val x = Inl AttributeError"

fun c :: "node \<Rightarrow> cstate \<Rightarrow> error + cstate" where
  "c (VAR v) s =
     (case g IFETCH s of Inl e \<Rightarrow> Inl e | Inr s1 \<Rightarrow> g v s1)"
| "c (CST v) s =
     (case g IPUSH s of Inl e \<Rightarrow> Inl e | Inr s1 \<Rightarrow> g v s1)"
| "c (ADD x1 x2) s =
     (case c x1 s of Inl e \<Rightarrow> Inl e | Inr s1 \<Rightarrow>
      (case c x2 s1 of Inl e \<Rightarrow> Inl e | Inr s2 \<Rightarrow> g IADD s2))"
| "c (SUB x1 x2) s =
     (case c x1 s of Inl e \<Rightarrow> Inl e | Inr s1 \<Rightarrow>
      (case c x2 s1 of Inl e \<Rightarrow> Inl e | Inr s2 \<Rightarrow> g ISUB s2))"
| "c (LT x1 x2) s =
     (case c x1 s of Inl e \<Rightarrow> Inl e | Inr s1 \<Rightarrow>
      (case c x2 s1 of Inl e \<Rightarrow> Inl e | Inr s2 \<Rightarrow> g ILT s2))"
| "c (SET x1 x2) s =
     (case c x2 s of Inl e \<Rightarrow> Inl e | Inr s1 \<Rightarrow>
      (case g ISTORE s1 of Inl e \<Rightarrow> Inl e | Inr s2 \<Rightarrow>
       (case val x1 of Inl e \<Rightarrow> Inl e | Inr v \<Rightarrow> g v s2)))"
| "c (IF1 x1 x2) s =
     (case c x1 s of Inl e \<Rightarrow> Inl e | Inr s1 \<Rightarrow>
      (case g JZ s1 of Inl e \<Rightarrow> Inl e | Inr s2 \<Rightarrow>
       (case hole s2 of (p1, s3) \<Rightarrow>
        (case c x2 s3 of Inl e \<Rightarrow> Inl e | Inr s4 \<Rightarrow> fix_jump p1 (here s4) s4))))"
| "c (IF2 x1 x2 x3) s =
     (case c x1 s of Inl e \<Rightarrow> Inl e | Inr s1 \<Rightarrow>
      (case g JZ s1 of Inl e \<Rightarrow> Inl e | Inr s2 \<Rightarrow>
       (case hole s2 of (p1, s3) \<Rightarrow>
        (case c x2 s3 of Inl e \<Rightarrow> Inl e | Inr s4 \<Rightarrow>
         (case g JMP s4 of Inl e \<Rightarrow> Inl e | Inr s5 \<Rightarrow>
          (case hole s5 of (p2, s6) \<Rightarrow>
           (case fix_jump p1 (here s6) s6 of Inl e \<Rightarrow> Inl e | Inr s7 \<Rightarrow>
            (case c x3 s7 of Inl e \<Rightarrow> Inl e | Inr s8 \<Rightarrow>
               fix_jump p2 (here s8) s8))))))))"
| "c (WHILE x1 x2) s =
     (case c x1 s of Inl e \<Rightarrow> Inl e | Inr s1 \<Rightarrow>
      (case g JZ s1 of Inl e \<Rightarrow> Inl e | Inr s2 \<Rightarrow>
       (case hole s2 of (p2, s3) \<Rightarrow>
        (case c x2 s3 of Inl e \<Rightarrow> Inl e | Inr s4 \<Rightarrow>
         (case g JMP s4 of Inl e \<Rightarrow> Inl e | Inr s5 \<Rightarrow>
          (case hole s5 of (p3, s6) \<Rightarrow>
           (case fix_jump p3 (here s) s6 of Inl e \<Rightarrow> Inl e | Inr s7 \<Rightarrow>
              fix_jump p2 (here s7) s7)))))))"
| "c (DO x1 x2) s =
     (case c x1 s of Inl e \<Rightarrow> Inl e | Inr s1 \<Rightarrow>
      (case c x2 s1 of Inl e \<Rightarrow> Inl e | Inr s2 \<Rightarrow>
       (case g JNZ s2 of Inl e \<Rightarrow> Inl e | Inr s3 \<Rightarrow>
        (case hole s3 of (p2, s4) \<Rightarrow> fix_jump p2 (here s) s4))))"
| "c EMPTY s = Inr s"
| "c (SEQ x1 x2) s =
     (case c x1 s of Inl e \<Rightarrow> Inl e | Inr s1 \<Rightarrow> c x2 s1)"
| "c (EXPR x1) s =
     (case c x1 s of Inl e \<Rightarrow> Inl e | Inr s1 \<Rightarrow> g IPOP s1)"
| "c (PROG x1) s =
     (case c x1 s of Inl e \<Rightarrow> Inl e | Inr s1 \<Rightarrow> g HALT s1)"

section \<open>Virtual machine\<close>

text \<open>
  Python indexing: a negative index counts from the end, and an index outside the
  sequence raises IndexError. The stack and the globals are arrays of C ints: storing a
  value outside \<open>-2^31..2^31-1\<close> raises OverflowError.
\<close>

definition py_index :: "'a list \<Rightarrow> int \<Rightarrow> error + nat" where
  "py_index xs i =
     (let j = (if i < 0 then i + int (length xs) else i)
      in if 0 \<le> j \<and> j < int (length xs) then Inr (nat j) else Inl IndexError)"

definition py_get :: "'a list \<Rightarrow> int \<Rightarrow> error + 'a" where
  "py_get xs i = (case py_index xs i of Inl e \<Rightarrow> Inl e | Inr j \<Rightarrow> Inr (xs ! j))"

definition py_set :: "int list \<Rightarrow> int \<Rightarrow> int \<Rightarrow> error + int list" where
  "py_set xs i v =
     (case py_index xs i of Inl e \<Rightarrow> Inl e
      | Inr j \<Rightarrow>
          if v < - 2147483648 \<or> 2147483647 < v then Inl OverflowError
          else Inr (xs[j := v]))"

record vm =
  pc :: int
  sp :: int
  stack :: "int list"
  globals :: "int list"

text \<open>
  \<open>Instruction[b]\<close> is \<open>list(Instruction)[b].name\<close>: the list has 11 members, so
  \<open>b\<close> is read as a Python index into it. The result is the member's value.
\<close>

definition decode :: "int \<Rightarrow> error + int" where
  "decode b = (case py_index (replicate 11 ()) b of Inl e \<Rightarrow> Inl e | Inr k \<Rightarrow> Inr (int k))"

datatype step_result = Continue vm | Break vm

text \<open>One round of the loop of \<open>run\<close> over the object code \<open>obj\<close>.\<close>

definition step :: "int list \<Rightarrow> vm \<Rightarrow> error + step_result" where
  "step obj v0 =
     (case py_get obj (pc v0) of Inl e \<Rightarrow> Inl e | Inr b \<Rightarrow>
      (case decode b of Inl e \<Rightarrow> Inl e | Inr i \<Rightarrow>
       (let v = v0\<lparr>pc := pc v0 + 1\<rparr> in
        if i = IFETCH then
          (case py_get obj (pc v) of Inl e \<Rightarrow> Inl e | Inr a \<Rightarrow>
           (case py_get (globals v) a of Inl e \<Rightarrow> Inl e | Inr x \<Rightarrow>
            (case py_set (stack v) (sp v) x of Inl e \<Rightarrow> Inl e | Inr st \<Rightarrow>
               Inr (Continue (v\<lparr>stack := st, sp := sp v + 1, pc := pc v + 1\<rparr>)))))
        else if i = ISTORE then
          (case py_get (stack v) (sp v - 1) of Inl e \<Rightarrow> Inl e | Inr x \<Rightarrow>
           (case py_get obj (pc v) of Inl e \<Rightarrow> Inl e | Inr a \<Rightarrow>
            (case py_set (globals v) a x of Inl e \<Rightarrow> Inl e | Inr gl \<Rightarrow>
               Inr (Continue (v\<lparr>globals := gl, pc := pc v + 1\<rparr>)))))
        else if i = IPUSH then
          (case py_get obj (pc v) of Inl e \<Rightarrow> Inl e | Inr x \<Rightarrow>
           (case py_set (stack v) (sp v) x of Inl e \<Rightarrow> Inl e | Inr st \<Rightarrow>
              Inr (Continue (v\<lparr>stack := st, sp := sp v + 1, pc := pc v + 1\<rparr>))))
        else if i = IPOP then
          Inr (Continue (v\<lparr>sp := sp v - 1\<rparr>))
        else if i = IADD then
          (case py_get (stack v) (sp v - 2) of Inl e \<Rightarrow> Inl e | Inr x \<Rightarrow>
           (case py_get (stack v) (sp v - 1) of Inl e \<Rightarrow> Inl e | Inr y \<Rightarrow>
            (case py_set (stack v) (sp v - 2) (x + y) of Inl e \<Rightarrow> Inl e | Inr st \<Rightarrow>
               Inr (Continue (v\<lparr>stack := st, sp := sp v - 1\<rparr>)))))
        else if i = ISUB then
          (case py_get (stack v) (sp v - 2) of Inl e \<Rightarrow> Inl e | Inr x \<Rightarrow>
           (case py_get (stack v) (sp v - 1) of Inl e \<Rightarrow> Inl e | Inr y \<Rightarrow>
            (case py_set (stack v) (sp v - 2) (x - y) of Inl e \<Rightarrow> Inl e | Inr st \<Rightarrow>
               Inr (Continue (v\<lparr>stack := st, sp := sp v - 1\<rparr>)))))
        else if i = ILT then
          (case py_get (stack v) (sp v - 2) of Inl e \<Rightarrow> Inl e | Inr x \<Rightarrow>
           (case py_get (stack v) (sp v - 1) of Inl e \<Rightarrow> Inl e | Inr y \<Rightarrow>
            (case py_set (stack v) (sp v - 2) (if x < y then 1 else 0) of Inl e \<Rightarrow> Inl e
             | Inr st \<Rightarrow> Inr (Continue (v\<lparr>stack := st, sp := sp v - 1\<rparr>)))))
        else if i = JZ then
          (let v1 = v\<lparr>sp := sp v - 1\<rparr> in
           (case py_get (stack v1) (sp v1) of Inl e \<Rightarrow> Inl e | Inr x \<Rightarrow>
              if x = 0 then
                (case py_get obj (pc v1) of Inl e \<Rightarrow> Inl e
                 | Inr d \<Rightarrow> Inr (Continue (v1\<lparr>pc := pc v1 + d\<rparr>)))
              else Inr (Continue (v1\<lparr>pc := pc v1 + 1\<rparr>))))
        else if i = JNZ then
          (let v1 = v\<lparr>sp := sp v - 1\<rparr> in
           (case py_get (stack v1) (sp v1) of Inl e \<Rightarrow> Inl e | Inr x \<Rightarrow>
              if x \<noteq> 0 then
                (case py_get obj (pc v1) of Inl e \<Rightarrow> Inl e
                 | Inr d \<Rightarrow> Inr (Continue (v1\<lparr>pc := pc v1 + d\<rparr>)))
              else Inr (Continue (v1\<lparr>pc := pc v1 + 1\<rparr>))))
        else if i = JMP then
          (case py_get obj (pc v) of Inl e \<Rightarrow> Inl e
           | Inr d \<Rightarrow> Inr (Continue (v\<lparr>pc := pc v + d\<rparr>)))
        else Inr (Break v))))"

text \<open>
  The loop \<open>while True\<close> of \<open>run\<close>; it may run forever, which is the value \<open>None\<close>.
  \<open>Some (Inr v)\<close> is the machine as \<open>HALT\<close> leaves it.
\<close>

partial_function (option) run :: "int list \<Rightarrow> vm \<Rightarrow> (error + vm) option" where
  "run obj v =
     (case step obj v of Inl e \<Rightarrow> Some (Inl e)
      | Inr (Break v1) \<Rightarrow> Some (Inr v1)
      | Inr (Continue v1) \<Rightarrow> run obj v1)"

declare run.simps [code]

definition init_vm :: vm where
  "init_vm = \<lparr>pc = 0, sp = 0, stack = replicate 1000 0, globals = replicate 26 0\<rparr>"

section \<open>Main program\<close>

text \<open>Python's \<open>str\<close> of an integer.\<close>

fun str_nat :: "nat \<Rightarrow> string" where
  "str_nat n =
     (if n < 10 then [char_of (48 + n)] else str_nat (n div 10) @ [char_of (48 + n mod 10)])"

declare str_nat.simps [simp del]

definition str_int :: "int \<Rightarrow> string" where
  "str_int i = (if i < 0 then CHR ''-'' # str_nat (nat (- i)) else str_nat (nat i))"

text \<open>
  The lines printed by the final loop, which formats the integer \<open>ord('a') + i\<close> and the
  value of the global.
\<close>

definition report :: "int list \<Rightarrow> string list" where
  "report gl =
     map (\<lambda>i. str_int (ord CHR ''a'' + int i) @ '' = '' @ str_int (gl ! i))
       (filter (\<lambda>i. gl ! i \<noteq> 0) [0..<26])"

text \<open>
  What the process leaves behind: the lines on standard output and on the diagnostic
  stream with the exit status, or an exception nobody caught.
\<close>

datatype outcome =
    Exit (stdout: "string list") (stderr: "string list") (status: int)
  | Traceback error

definition raised :: "error \<Rightarrow> outcome" where
  "raised e = (if e = SyntaxError then Exit [] [''syntax error''] 1 else Traceback e)"

text \<open>A depth of calls that the parser never reaches on the input \<open>s\<close>.\<close>

definition parse_depth :: "string \<Rightarrow> nat" where
  "parse_depth s = 5 * length s + 16"

definition main :: "string \<Rightarrow> outcome option" where
  "main s =
     (case program (parse_depth s) (init_lexer s) of None \<Rightarrow> None
      | Some (Inl e) \<Rightarrow> Some (raised e)
      | Some (Inr x) \<Rightarrow>
         (case c x init_cstate of Inl e \<Rightarrow> Some (raised e)
          | Inr cs \<Rightarrow>
             (case run (object cs) init_vm of None \<Rightarrow> None
              | Some (Inl e) \<Rightarrow> Some (raised e)
              | Some (Inr v) \<Rightarrow> Some (Exit (report (globals v)) [] 0))))"

section \<open>Properties of the virtual machine\<close>

lemma py_get_Inr: "0 \<le> i \<Longrightarrow> i < int (length xs) \<Longrightarrow> py_get xs i = Inr (xs ! nat i)"
  by (simp add: py_get_def py_index_def)

lemma decode_Inr: "0 \<le> b \<Longrightarrow> b \<le> 10 \<Longrightarrow> decode b = Inr b"
  by (simp add: decode_def py_index_def)

text \<open>
  C1. The report after a successful run should print, for every nonzero global, the line
  \<open><letter> = <value>\<close>, as the examples in the source's own documentation show
  (\<open>a = 1\<close>, \<open>b = 1\<close>, \<open>c = 1\<close> for the program below). The code formats the integer
  \<open>ord('a') + i\<close> instead of the letter, so the lines start with the letter's code point.
\<close>

theorem report_prints_code_point:
  "main ''a=b=c=2<3;'' = Some (Exit [''97 = 1'', ''98 = 1'', ''99 = 1''] [] 0)"
  by code_simp

text \<open>
  C5. Executing store-global(i) with a value on the stack writes the top of the stack into
  \<open>globals[i]\<close> and changes nothing else of the stack and the globals: the stack, its
  height and every other global stay as they were (the program counter moves past the
  instruction and its operand).
\<close>

theorem istore_frame:
  assumes "py_get obj (pc v) = Inr ISTORE"
      and "py_get obj (pc v + 1) = Inr i"
      and "0 \<le> i" and "i < 26" and "length (globals v) = 26"
      and "0 < sp v" and "sp v \<le> int (length (stack v))"
      and "- 2147483648 \<le> stack v ! nat (sp v - 1)"
      and "stack v ! nat (sp v - 1) \<le> 2147483647"
  shows "step obj v =
           Inr (Continue (v\<lparr>globals := (globals v)[nat i := stack v ! nat (sp v - 1)],
                              pc := pc v + 2\<rparr>))"
  using assms
  by (simp add: step_def decode_Inr py_get_Inr py_set_def py_index_def)

theorem istore_frame_witness:
  "step [1, 2, 10] \<lparr>pc = 0, sp = 1, stack = [7, 0], globals = replicate 26 0\<rparr>
     = Inr (Continue \<lparr>pc = 2, sp = 1, stack = [7, 0], globals = (replicate 26 0)[2 := 7]\<rparr>)"
  using istore_frame [of "[1, 2, 10]" "\<lparr>pc = 0, sp = 1, stack = [7, 0], globals = replicate 26 0\<rparr>" 2]
  by (simp add: py_get_def py_index_def)

section \<open>Backpatching\<close>

lemma g_Inr:
  "g b s = Inr s' \<Longrightarrow>
     here s < length (object s) \<and> s' = s\<lparr>object := (object s)[here s := b], here := here s + 1\<rparr>"
  by (auto simp: g_def split: if_splits)

lemma fix_jump_Inr:
  "fix_jump src dst s = Inr s' \<Longrightarrow>
     src < length (object s) \<and> s' = s\<lparr>object := (object s)[src := int dst - int src]\<rparr>"
  by (auto simp: fix_jump_def split: if_splits)

lemma c_IF1_E:
  assumes "c (IF1 x1 x2) s = Inr s'"
  obtains s1 s2 s4 where "c x1 s = Inr s1" "g JZ s1 = Inr s2"
    "c x2 (snd (hole s2)) = Inr s4" "fix_jump (fst (hole s2)) (here s4) s4 = Inr s'"
  using assms by (auto split: sum.splits prod.splits)

lemma c_IF2_E:
  assumes "c (IF2 x1 x2 x3) s = Inr s'"
  obtains s1 s2 s4 s5 s7 s8 where "c x1 s = Inr s1" "g JZ s1 = Inr s2"
    "c x2 (snd (hole s2)) = Inr s4" "g JMP s4 = Inr s5"
    "fix_jump (fst (hole s2)) (here (snd (hole s5))) (snd (hole s5)) = Inr s7"
    "c x3 s7 = Inr s8" "fix_jump (fst (hole s5)) (here s8) s8 = Inr s'"
  using assms by (auto split: sum.splits prod.splits)

lemma c_WHILE_E:
  assumes "c (WHILE x1 x2) s = Inr s'"
  obtains s1 s2 s4 s5 s7 where "c x1 s = Inr s1" "g JZ s1 = Inr s2"
    "c x2 (snd (hole s2)) = Inr s4" "g JMP s4 = Inr s5"
    "fix_jump (fst (hole s5)) (here s) (snd (hole s5)) = Inr s7"
    "fix_jump (fst (hole s2)) (here s7) s7 = Inr s'"
  using assms by (auto split: sum.splits prod.splits)

lemma c_DO_E:
  assumes "c (DO x1 x2) s = Inr s'"
  obtains s1 s2 s3 where "c x1 s = Inr s1" "c x2 s1 = Inr s2" "g JNZ s2 = Inr s3"
    "fix_jump (fst (hole s3)) (here s) (snd (hole s3)) = Inr s'"
  using assms by (auto split: sum.splits prod.splits)


text \<open>
  The calls \<open>fix(src, dst)\<close> that \<open>c x\<close> makes when started in state \<open>s\<close>, in the
  order of the source: each pairs a hole reserved by \<open>hole()\<close> with the target it is
  patched to. An exception ends the list where it ends the compilation.
\<close>

fun fix_calls :: "node \<Rightarrow> cstate \<Rightarrow> (nat \<times> nat) list" where
  "fix_calls (VAR v) s = []"
| "fix_calls (CST v) s = []"
| "fix_calls (ADD x1 x2) s =
     fix_calls x1 s @ (case c x1 s of Inl e \<Rightarrow> [] | Inr s1 \<Rightarrow> fix_calls x2 s1)"
| "fix_calls (SUB x1 x2) s =
     fix_calls x1 s @ (case c x1 s of Inl e \<Rightarrow> [] | Inr s1 \<Rightarrow> fix_calls x2 s1)"
| "fix_calls (LT x1 x2) s =
     fix_calls x1 s @ (case c x1 s of Inl e \<Rightarrow> [] | Inr s1 \<Rightarrow> fix_calls x2 s1)"
| "fix_calls (SET x1 x2) s = fix_calls x2 s"
| "fix_calls (IF1 x1 x2) s =
     fix_calls x1 s @
     (case c x1 s of Inl e \<Rightarrow> [] | Inr s1 \<Rightarrow>
      (case g JZ s1 of Inl e \<Rightarrow> [] | Inr s2 \<Rightarrow>
       (case hole s2 of (p1, s3) \<Rightarrow>
          fix_calls x2 s3 @
          (case c x2 s3 of Inl e \<Rightarrow> [] | Inr s4 \<Rightarrow> [(p1, here s4)]))))"
| "fix_calls (IF2 x1 x2 x3) s =
     fix_calls x1 s @
     (case c x1 s of Inl e \<Rightarrow> [] | Inr s1 \<Rightarrow>
      (case g JZ s1 of Inl e \<Rightarrow> [] | Inr s2 \<Rightarrow>
       (case hole s2 of (p1, s3) \<Rightarrow>
          fix_calls x2 s3 @
          (case c x2 s3 of Inl e \<Rightarrow> [] | Inr s4 \<Rightarrow>
           (case g JMP s4 of Inl e \<Rightarrow> [] | Inr s5 \<Rightarrow>
            (case hole s5 of (p2, s6) \<Rightarrow>
               (p1, here s6) #
               (case fix_jump p1 (here s6) s6 of Inl e \<Rightarrow> [] | Inr s7 \<Rightarrow>
                  fix_calls x3 s7 @
                  (case c x3 s7 of Inl e \<Rightarrow> [] | Inr s8 \<Rightarrow> [(p2, here s8)]))))))))"
| "fix_calls (WHILE x1 x2) s =
     fix_calls x1 s @
     (case c x1 s of Inl e \<Rightarrow> [] | Inr s1 \<Rightarrow>
      (case g JZ s1 of Inl e \<Rightarrow> [] | Inr s2 \<Rightarrow>
       (case hole s2 of (p2, s3) \<Rightarrow>
          fix_calls x2 s3 @
          (case c x2 s3 of Inl e \<Rightarrow> [] | Inr s4 \<Rightarrow>
           (case g JMP s4 of Inl e \<Rightarrow> [] | Inr s5 \<Rightarrow>
            (case hole s5 of (p3, s6) \<Rightarrow>
               (p3, here s) #
               (case fix_jump p3 (here s) s6 of Inl e \<Rightarrow> [] | Inr s7 \<Rightarrow>
                  [(p2, here s7)])))))))"
| "fix_calls (DO x1 x2) s =
     fix_calls x1 s @
     (case c x1 s of Inl e \<Rightarrow> [] | Inr s1 \<Rightarrow>
        fix_calls x2 s1 @
        (case c x2 s1 of Inl e \<Rightarrow> [] | Inr s2 \<Rightarrow>
         (case g JNZ s2 of Inl e \<Rightarrow> [] | Inr s3 \<Rightarrow>
          (case hole s3 of (p2, s4) \<Rightarrow> [(p2, here s)]))))"
| "fix_calls EMPTY s = []"
| "fix_calls (SEQ x1 x2) s =
     fix_calls x1 s @ (case c x1 s of Inl e \<Rightarrow> [] | Inr s1 \<Rightarrow> fix_calls x2 s1)"
| "fix_calls (EXPR x1) s = fix_calls x1 s"
| "fix_calls (PROG x1) s = fix_calls x1 s"

text \<open>
  The byte at \<open>src\<close> holds the displacement to \<open>dst\<close>, counted from \<open>src\<close> itself, and
  follows the opcode of a branch.
\<close>

definition good :: "int list \<Rightarrow> nat \<Rightarrow> nat \<Rightarrow> bool" where
  "good obj src dst =
     (0 < src \<and> src < length obj \<and> obj ! src = int dst - int src \<and>
      (obj ! (src - 1) = JZ \<or> obj ! (src - 1) = JNZ \<or> obj ! (src - 1) = JMP))"

text \<open>
  From state \<open>s\<close> to \<open>s'\<close> the code generator has only written at and after
  \<open>here s\<close>, and the patches \<open>ps\<close> it has made there are all in place in \<open>s'\<close>.
\<close>

definition patched :: "cstate \<Rightarrow> cstate \<Rightarrow> (nat \<times> nat) list \<Rightarrow> bool" where
  "patched s s' ps =
     (here s \<le> here s' \<and> length (object s') = length (object s) \<and>
      (\<forall>i<here s. object s' ! i = object s ! i) \<and>
      (\<forall>(src, dst)\<in>set ps. here s < src \<and> src < here s' \<and> good (object s') src dst))"

lemma good_update:
  "good obj src dst \<Longrightarrow> p \<noteq> src \<Longrightarrow> p \<noteq> src - 1 \<Longrightarrow> good (obj[p := b]) src dst"
  by (auto simp: good_def)

lemma good_frame:
  "good obj src dst \<Longrightarrow> src < h \<Longrightarrow> \<forall>i<h. obj' ! i = obj ! i \<Longrightarrow>
     length obj' = length obj \<Longrightarrow> good obj' src dst"
  by (auto simp: good_def)

lemma patched_refl: "patched s s []"
  by (simp add: patched_def)

lemma patched_g: "g b s = Inr s' \<Longrightarrow> patched s s' []"
  by (auto simp: patched_def dest!: g_Inr)

lemma patched_hole: "patched s (snd (hole s)) []"
  by (simp add: patched_def hole_def)

lemma patched_trans:
  assumes "patched s s1 ps" and "patched s1 s2 qs"
  shows "patched s s2 (ps @ qs)"
proof -
  have a: "here s \<le> here s1" "here s1 \<le> here s2"
    "length (object s1) = length (object s)" "length (object s2) = length (object s1)"
    and f1: "\<forall>i<here s. object s1 ! i = object s ! i"
    and f2: "\<forall>i<here s1. object s2 ! i = object s1 ! i"
    using assms by (auto simp: patched_def)
  have "here s < src \<and> src < here s2 \<and> good (object s2) src dst"
    if "(src, dst) \<in> set ps" for src dst
  proof -
    from that assms(1) have "here s < src" "src < here s1" "good (object s1) src dst"
      by (auto simp: patched_def)
    then show ?thesis
      using a f2 good_frame [of "object s1" src dst "here s1" "object s2"] by auto
  qed
  moreover have "here s < src \<and> src < here s2 \<and> good (object s2) src dst"
    if "(src, dst) \<in> set qs" for src dst
    using that assms(2) a by (auto simp: patched_def)
  ultimately show ?thesis
    using a f1 f2 by (auto simp: patched_def)
qed

lemma patched_fix:
  assumes "patched s sB ps" and "fix_jump p dst sB = Inr s'"
    and "here s < p" and "p < here sB"
    and "object sB ! (p - 1) = JZ \<or> object sB ! (p - 1) = JNZ \<or> object sB ! (p - 1) = JMP"
    and "\<forall>(src, d)\<in>set ps. src \<noteq> p \<and> src \<noteq> p + 1"
  shows "patched s s' (ps @ [(p, dst)])"
proof -
  from assms(2) have len: "p < length (object sB)"
    and s': "s' = sB\<lparr>object := (object sB)[p := int dst - int p]\<rparr>"
    by (auto dest: fix_jump_Inr)
  have frame: "\<forall>i<here s. object s' ! i = object sB ! i"
    using assms(3) s' by auto
  have "here s < src \<and> src < here s' \<and> good (object s') src d"
    if "(src, d) \<in> set ps" for src d
  proof -
    from that assms(1) have "here s < src" "src < here sB" "good (object sB) src d"
      by (auto simp: patched_def)
    moreover from that assms(6) have "p \<noteq> src" "p \<noteq> src - 1" by auto
    ultimately show ?thesis
      using s' good_update [of "object sB" src d p] by auto
  qed
  moreover have "good (object s') p dst"
    using assms(3,5) len s' by (auto simp: good_def)
  ultimately show ?thesis
    using assms(1,3,4) s' frame by (auto simp: patched_def)
qed


lemma patched_range:
  "patched s s' ps \<Longrightarrow> (src, d) \<in> set ps \<Longrightarrow> here s < src \<and> src < here s'"
  by (auto simp: patched_def)

lemma patched_here: "patched s s' ps \<Longrightarrow> here s \<le> here s'"
  by (simp add: patched_def)

lemma patched_nth: "patched s s' ps \<Longrightarrow> i < here s \<Longrightarrow> object s' ! i = object s ! i"
  by (simp add: patched_def)

lemma patched_branch:
  assumes "g b s1 = Inr s2" and "patched (snd (hole s2)) s4 ps"
  shows "object s4 ! (fst (hole s2) - 1) = b" and "fst (hole s2) = here s1 + 1"
    and "here (snd (hole s2)) = here s1 + 2"
proof -
  from assms(1) have a: "here s1 < length (object s1)"
    "s2 = s1\<lparr>object := (object s1)[here s1 := b], here := here s1 + 1\<rparr>"
    by (auto dest: g_Inr)
  then show "fst (hole s2) = here s1 + 1" "here (snd (hole s2)) = here s1 + 2"
    by (simp_all add: hole_def)
  have "object s4 ! here s1 = object (snd (hole s2)) ! here s1"
    using patched_nth [OF assms(2), of "here s1"] a by (simp add: hole_def)
  then show "object s4 ! (fst (hole s2) - 1) = b"
    using a by (simp add: hole_def)
qed

lemma c_patched: "c x s = Inr s' \<Longrightarrow> patched s s' (fix_calls x s)"
proof (induction x arbitrary: s s')
  case (VAR v)
  then show ?case
    by (auto split: sum.splits dest: patched_trans [OF patched_g patched_g])
next
  case (CST v)
  then show ?case
    by (auto split: sum.splits dest: patched_trans [OF patched_g patched_g])
next
  case (ADD x1 x2)
  then show ?case
    by (auto split: sum.splits dest!: ADD.IH dest: patched_trans [OF patched_trans patched_g])
next
  case (SUB x1 x2)
  then show ?case
    by (auto split: sum.splits dest!: SUB.IH dest: patched_trans [OF patched_trans patched_g])
next
  case (LT x1 x2)
  then show ?case
    by (auto split: sum.splits dest!: LT.IH dest: patched_trans [OF patched_trans patched_g])
next
  case (SET x1 x2)
  then show ?case
    by (auto split: sum.splits dest!: SET.IH
          dest: patched_trans [OF patched_trans [OF _ patched_g] patched_g])
next
  case (IF1 x1 x2)
  from IF1.prems obtain s1 s2 s4 where st: "c x1 s = Inr s1" "g JZ s1 = Inr s2"
    "c x2 (snd (hole s2)) = Inr s4" "fix_jump (fst (hole s2)) (here s4) s4 = Inr s'"
    by (rule c_IF1_E)
  let ?s3 = "snd (hole s2)" and ?p = "fst (hole s2)"
  note p1 = IF1.IH(1) [OF st(1)] and p2 = IF1.IH(2) [OF st(3)]
  note br = patched_branch [OF st(2) p2]
  have all: "patched s s4 (fix_calls x1 s @ fix_calls x2 ?s3)"
    using patched_trans [OF patched_trans [OF patched_trans [OF p1 patched_g [OF st(2)]] patched_hole] p2]
    by simp
  have "patched s s' ((fix_calls x1 s @ fix_calls x2 ?s3) @ [(?p, here s4)])"
  proof (rule patched_fix [OF all st(4)])
    show "here s < ?p" using patched_here [OF p1] br by simp
    show "?p < here s4" using patched_here [OF p2] br by simp
    show "object s4 ! (?p - 1) = JZ \<or> object s4 ! (?p - 1) = JNZ \<or> object s4 ! (?p - 1) = JMP"
      using br by simp
    show "\<forall>(src, d)\<in>set (fix_calls x1 s @ fix_calls x2 ?s3). src \<noteq> ?p \<and> src \<noteq> ?p + 1"
      using patched_range [OF p1] patched_range [OF p2] br by fastforce
  qed
  then show ?case
    using st by (simp split: prod.splits add: hole_def)
next
  case (IF2 x1 x2 x3)
  from IF2.prems obtain s1 s2 s4 s5 s7 s8 where st: "c x1 s = Inr s1" "g JZ s1 = Inr s2"
    "c x2 (snd (hole s2)) = Inr s4" "g JMP s4 = Inr s5"
    "fix_jump (fst (hole s2)) (here (snd (hole s5))) (snd (hole s5)) = Inr s7"
    "c x3 s7 = Inr s8" "fix_jump (fst (hole s5)) (here s8) s8 = Inr s'"
    by (rule c_IF2_E)
  let ?s3 = "snd (hole s2)" and ?p1 = "fst (hole s2)"
  let ?s6 = "snd (hole s5)" and ?p2 = "fst (hole s5)"
  note p1 = IF2.IH(1) [OF st(1)] and p2 = IF2.IH(2) [OF st(3)] and p3 = IF2.IH(3) [OF st(6)]
  have p36: "patched ?s3 ?s6 (fix_calls x2 ?s3)"
    using patched_trans [OF patched_trans [OF p2 patched_g [OF st(4)]] patched_hole] by simp
  note br1 = patched_branch [OF st(2) p36]
  note br2 = patched_branch [OF st(4) patched_refl]
  have all: "patched s ?s6 (fix_calls x1 s @ fix_calls x2 ?s3)"
    using patched_trans [OF patched_trans [OF patched_trans [OF p1 patched_g [OF st(2)]] patched_hole] p36]
    by simp
  have s7: "s7 = ?s6\<lparr>object := (object ?s6)[?p1 := int (here ?s6) - int ?p1]\<rparr>"
    using st(5) by (auto dest: fix_jump_Inr)
  have first: "patched s s7 ((fix_calls x1 s @ fix_calls x2 ?s3) @ [(?p1, here ?s6)])"
  proof (rule patched_fix [OF all st(5)])
    show "here s < ?p1" using patched_here [OF p1] br1 by simp
    show "?p1 < here ?s6" using patched_here [OF p2] br1 br2 by simp
    show "object ?s6 ! (?p1 - 1) = JZ \<or> object ?s6 ! (?p1 - 1) = JNZ \<or> object ?s6 ! (?p1 - 1) = JMP"
      using br1 by simp
    show "\<forall>(src, d)\<in>set (fix_calls x1 s @ fix_calls x2 ?s3). src \<noteq> ?p1 \<and> src \<noteq> ?p1 + 1"
      using patched_range [OF p1] patched_range [OF p2] br1 by fastforce
  qed
  have upto8: "patched s s8 (((fix_calls x1 s @ fix_calls x2 ?s3) @ [(?p1, here ?s6)]) @ fix_calls x3 s7)"
    by (rule patched_trans [OF first p3])
  have jmp: "object s8 ! (?p2 - 1) = JMP"
  proof -
    have "object s8 ! here s4 = object s7 ! here s4"
      using patched_nth [OF p3, of "here s4"] s7 br2 by simp
    also have "\<dots> = object ?s6 ! here s4"
      using s7 br1 patched_here [OF p2] by simp
    finally show ?thesis using br2 by simp
  qed
  have "patched s s' ((((fix_calls x1 s @ fix_calls x2 ?s3) @ [(?p1, here ?s6)]) @ fix_calls x3 s7)
          @ [(?p2, here s8)])"
  proof (rule patched_fix [OF upto8 st(7)])
    show "here s < ?p2" using patched_here [OF p1] patched_here [OF p2] br1 br2 by simp
    show "?p2 < here s8" using patched_here [OF p3] br2 s7 by simp
    show "object s8 ! (?p2 - 1) = JZ \<or> object s8 ! (?p2 - 1) = JNZ \<or> object s8 ! (?p2 - 1) = JMP"
      using jmp by simp
    show "\<forall>(src, d)\<in>set (((fix_calls x1 s @ fix_calls x2 ?s3) @ [(?p1, here ?s6)]) @ fix_calls x3 s7).
            src \<noteq> ?p2 \<and> src \<noteq> ?p2 + 1"
      using patched_range [OF p1] patched_range [OF p2] patched_range [OF p3]
        patched_here [OF p2] br1 br2 s7 by fastforce
  qed
  then show ?case
    using st by (simp split: prod.splits add: hole_def)
next
  case (WHILE x1 x2)
  from WHILE.prems obtain s1 s2 s4 s5 s7 where st: "c x1 s = Inr s1" "g JZ s1 = Inr s2"
    "c x2 (snd (hole s2)) = Inr s4" "g JMP s4 = Inr s5"
    "fix_jump (fst (hole s5)) (here s) (snd (hole s5)) = Inr s7"
    "fix_jump (fst (hole s2)) (here s7) s7 = Inr s'"
    by (rule c_WHILE_E)
  let ?s3 = "snd (hole s2)" and ?p2 = "fst (hole s2)"
  let ?s6 = "snd (hole s5)" and ?p3 = "fst (hole s5)"
  note p1 = WHILE.IH(1) [OF st(1)] and p2 = WHILE.IH(2) [OF st(3)]
  have p36: "patched ?s3 ?s6 (fix_calls x2 ?s3)"
    using patched_trans [OF patched_trans [OF p2 patched_g [OF st(4)]] patched_hole] by simp
  note br2 = patched_branch [OF st(2) p36]
  note br3 = patched_branch [OF st(4) patched_refl]
  have all: "patched s ?s6 (fix_calls x1 s @ fix_calls x2 ?s3)"
    using patched_trans [OF patched_trans [OF patched_trans [OF p1 patched_g [OF st(2)]] patched_hole] p36]
    by simp
  have s7: "s7 = ?s6\<lparr>object := (object ?s6)[?p3 := int (here s) - int ?p3]\<rparr>"
    using st(5) by (auto dest: fix_jump_Inr)
  have first: "patched s s7 ((fix_calls x1 s @ fix_calls x2 ?s3) @ [(?p3, here s)])"
  proof (rule patched_fix [OF all st(5)])
    show "here s < ?p3" using patched_here [OF p1] patched_here [OF p2] br2 br3 by simp
    show "?p3 < here ?s6" using br3 by simp
    show "object ?s6 ! (?p3 - 1) = JZ \<or> object ?s6 ! (?p3 - 1) = JNZ \<or> object ?s6 ! (?p3 - 1) = JMP"
      using br3 by simp
    show "\<forall>(src, d)\<in>set (fix_calls x1 s @ fix_calls x2 ?s3). src \<noteq> ?p3 \<and> src \<noteq> ?p3 + 1"
      using patched_range [OF p1] patched_range [OF p2] patched_here [OF p2] br2 br3 by fastforce
  qed
  have "patched s s' (((fix_calls x1 s @ fix_calls x2 ?s3) @ [(?p3, here s)]) @ [(?p2, here s7)])"
  proof (rule patched_fix [OF first st(6)])
    show "here s < ?p2" using patched_here [OF p1] br2 by simp
    show "?p2 < here s7" using patched_here [OF p2] br2 br3 s7 by simp
    show "object s7 ! (?p2 - 1) = JZ \<or> object s7 ! (?p2 - 1) = JNZ \<or> object s7 ! (?p2 - 1) = JMP"
      using br2 br3 patched_here [OF p2] s7 by simp
    show "\<forall>(src, d)\<in>set ((fix_calls x1 s @ fix_calls x2 ?s3) @ [(?p3, here s)]).
            src \<noteq> ?p2 \<and> src \<noteq> ?p2 + 1"
      using patched_range [OF p1] patched_range [OF p2] patched_here [OF p2] br2 br3 by fastforce
  qed
  then show ?case
    using st by (simp split: prod.splits add: hole_def)
next
  case (DO x1 x2)
  from DO.prems obtain s1 s2 s3 where st: "c x1 s = Inr s1" "c x2 s1 = Inr s2"
    "g JNZ s2 = Inr s3" "fix_jump (fst (hole s3)) (here s) (snd (hole s3)) = Inr s'"
    by (rule c_DO_E)
  let ?s4 = "snd (hole s3)" and ?p = "fst (hole s3)"
  note p1 = DO.IH(1) [OF st(1)] and p2 = DO.IH(2) [OF st(2)]
  note br = patched_branch [OF st(3) patched_refl]
  have all: "patched s ?s4 (fix_calls x1 s @ fix_calls x2 s1)"
    using patched_trans [OF patched_trans [OF patched_trans [OF p1 p2] patched_g [OF st(3)]] patched_hole]
    by simp
  have "patched s s' ((fix_calls x1 s @ fix_calls x2 s1) @ [(?p, here s)])"
  proof (rule patched_fix [OF all st(4)])
    show "here s < ?p" using patched_here [OF p1] patched_here [OF p2] br by simp
    show "?p < here ?s4" using br by simp
    show "object ?s4 ! (?p - 1) = JZ \<or> object ?s4 ! (?p - 1) = JNZ \<or> object ?s4 ! (?p - 1) = JMP"
      using br by simp
    show "\<forall>(src, d)\<in>set (fix_calls x1 s @ fix_calls x2 s1). src \<noteq> ?p \<and> src \<noteq> ?p + 1"
      using patched_range [OF p1] patched_range [OF p2] patched_here [OF p2] br by fastforce
  qed
  then show ?case
    using st by (simp split: prod.splits add: hole_def)
next
  case EMPTY
  then show ?case by (simp add: patched_refl)
next
  case (SEQ x1 x2)
  then show ?case
    by (auto split: sum.splits dest!: SEQ.IH dest: patched_trans)
next
  case (EXPR x)
  then show ?case
    by (auto split: sum.splits dest!: EXPR.IH dest: patched_trans [OF _ patched_g])
next
  case (PROG x)
  then show ?case
    by (auto split: sum.splits dest!: PROG.IH dest: patched_trans [OF _ patched_g])
qed

lemma step_branch:
  assumes "0 < src" and "src < length obj" and "obj ! (src - 1) = opc"
      and "opc = JZ \<or> opc = JNZ \<or> opc = JMP"
      and "pc v = int src - 1"
      and "opc = JMP \<or> (0 < sp v \<and> sp v \<le> int (length (stack v)))"
  shows "step obj v =
           Inr (Continue (v\<lparr>pc := (if opc = JMP \<or> (opc = JZ \<and> stack v ! nat (sp v - 1) = 0)
                                       \<or> (opc = JNZ \<and> stack v ! nat (sp v - 1) \<noteq> 0)
                                    then int src + obj ! src else int src + 1),
                              sp := (if opc = JMP then sp v else sp v - 1)\<rparr>))"
proof -
  have g1: "py_get obj (int src - 1) = Inr opc"
    using assms(1-3) by (simp add: py_get_def py_index_def nat_diff_distrib)
  have g2: "py_get obj (int src) = Inr (obj ! src)"
    using assms(2) by (simp add: py_get_def py_index_def)
  have d: "decode opc = Inr opc"
    using assms(4) by (auto simp: decode_Inr)
  show ?thesis
    using assms(4,6) by (auto simp: step_def assms(5) g1 g2 d py_get_Inr)
qed

text \<open>
  C3. Every displacement byte that the code generator patches (every call
  \<open>fix(src, dst)\<close> made while compiling \<open>x\<close>) lies in the code emitted for \<open>x\<close>, follows
  the opcode of a branch, and in the finished object code holds \<open>dst - src\<close>, the target
  minus the address of the byte itself: no later emission or patch disturbs it. The machine
  adds it to \<open>pc\<close> while \<open>pc\<close> is the address of that byte, so a jump that is taken
  (\<open>JZ\<close> on zero, \<open>JNZ\<close> on nonzero, \<open>JMP\<close> always) continues exactly at \<open>dst\<close>, and a
  conditional jump that is not taken continues right after the displacement byte.
\<close>

theorem compiled_jump_reaches_target:
  assumes "c x s = Inr s'" and "(src, dst) \<in> set (fix_calls x s)"
  shows "here s < src \<and> src < here s' \<and>
         object s' ! src = int dst - int src \<and>
         (object s' ! (src - 1) = JZ \<or> object s' ! (src - 1) = JNZ \<or> object s' ! (src - 1) = JMP) \<and>
         (\<forall>v. pc v = int src - 1 \<and>
              (object s' ! (src - 1) = JMP \<or> (0 < sp v \<and> sp v \<le> int (length (stack v)))) \<longrightarrow>
              step (object s') v =
                Inr (Continue (v\<lparr>pc := (if object s' ! (src - 1) = JMP
                                            \<or> (object s' ! (src - 1) = JZ \<and> stack v ! nat (sp v - 1) = 0)
                                            \<or> (object s' ! (src - 1) = JNZ \<and> stack v ! nat (sp v - 1) \<noteq> 0)
                                         then int dst else int src + 1),
                                   sp := (if object s' ! (src - 1) = JMP then sp v else sp v - 1)\<rparr>)))"
proof -
  from c_patched [OF assms(1)] assms(2)
  have r: "here s < src" "src < here s'" and gd: "good (object s') src dst"
    by (auto simp: patched_def)
  from gd have b: "0 < src" "src < length (object s')" "object s' ! src = int dst - int src"
    "object s' ! (src - 1) = JZ \<or> object s' ! (src - 1) = JNZ \<or> object s' ! (src - 1) = JMP"
    by (auto simp: good_def)
  have "step (object s') v =
          Inr (Continue (v\<lparr>pc := (if object s' ! (src - 1) = JMP
                                      \<or> (object s' ! (src - 1) = JZ \<and> stack v ! nat (sp v - 1) = 0)
                                      \<or> (object s' ! (src - 1) = JNZ \<and> stack v ! nat (sp v - 1) \<noteq> 0)
                                   then int dst else int src + 1),
                             sp := (if object s' ! (src - 1) = JMP then sp v else sp v - 1)\<rparr>))"
    if "pc v = int src - 1"
      and "object s' ! (src - 1) = JMP \<or> (0 < sp v \<and> sp v \<le> int (length (stack v)))" for v
    using step_branch [OF b(1,2) refl b(4) that] b(3) by simp
  then show ?thesis
    using r b by blast
qed

text \<open>
  The loop \<open>do a=a+1; while (a<3);\<close>: its \<open>JNZ\<close> at address 13 is patched at 14 to jump
  back to 0, and jumps there when the top of the stack is 1.
\<close>

theorem compiled_jump_reaches_target_witness:
  "c (DO (EXPR (SET (VAR 0) (ADD (VAR 0) (CST 1)))) (LT (VAR 0) (CST 3)))
       \<lparr>object = replicate 18 0, here = 0\<rparr>
     = Inr \<lparr>object = [0, 0, 2, 1, 4, 1, 0, 3, 0, 0, 2, 3, 6, 8, - 14, 0, 0, 0], here = 15\<rparr> \<and>
   (14, 0) \<in> set (fix_calls (DO (EXPR (SET (VAR 0) (ADD (VAR 0) (CST 1)))) (LT (VAR 0) (CST 3)))
       \<lparr>object = replicate 18 0, here = 0\<rparr>) \<and>
   step [0, 0, 2, 1, 4, 1, 0, 3, 0, 0, 2, 3, 6, 8, - 14, 0, 0, 0]
        \<lparr>pc = 13, sp = 1, stack = [1, 3], globals = []\<rparr>
     = Inr (Continue \<lparr>pc = 0, sp = 0, stack = [1, 3], globals = []\<rparr>)"
proof -
  have cc: "c (DO (EXPR (SET (VAR 0) (ADD (VAR 0) (CST 1)))) (LT (VAR 0) (CST 3)))
       \<lparr>object = replicate 18 0, here = 0\<rparr>
     = Inr \<lparr>object = [0, 0, 2, 1, 4, 1, 0, 3, 0, 0, 2, 3, 6, 8, - 14, 0, 0, 0], here = 15\<rparr>"
    by code_simp
  have mem: "(14, 0) \<in> set (fix_calls (DO (EXPR (SET (VAR 0) (ADD (VAR 0) (CST 1)))) (LT (VAR 0) (CST 3)))
       \<lparr>object = replicate 18 0, here = 0\<rparr>)"
    by code_simp
  from compiled_jump_reaches_target [OF cc mem]
  have "pc v = 13 \<and> 0 < sp v \<and> sp v \<le> int (length (stack v)) \<longrightarrow>
          step [0, 0, 2, 1, 4, 1, 0, 3, 0, 0, 2, 3, 6, 8, - 14, 0, 0, 0] v =
            Inr (Continue (v\<lparr>pc := (if stack v ! nat (sp v - 1) \<noteq> 0 then 0 else 15),
                               sp := sp v - 1\<rparr>))" for v
    by simp
  from this [of "\<lparr>pc = 13, sp = 1, stack = [1, 3], globals = []\<rparr>"] cc mem
  show ?thesis by simp
qed

section \<open>Words in the lexer\<close>










section \<open>The emitted code\<close>

text \<open>
  The bytes that \<open>c\<close> emits for a node, wherever it emits them: the displacements are
  relative, so they only depend on the lengths of the parts.
\<close>

fun code :: "node \<Rightarrow> int list" where
  "code (VAR v) = [IFETCH, v]"
| "code (CST v) = [IPUSH, v]"
| "code (ADD x1 x2) = code x1 @ code x2 @ [IADD]"
| "code (SUB x1 x2) = code x1 @ code x2 @ [ISUB]"
| "code (LT x1 x2) = code x1 @ code x2 @ [ILT]"
| "code (SET x1 x2) = code x2 @ [ISTORE, (case val x1 of Inl e \<Rightarrow> 0 | Inr v \<Rightarrow> v)]"
| "code (IF1 x1 x2) = code x1 @ [JZ, int (length (code x2)) + 1] @ code x2"
| "code (IF2 x1 x2 x3) =
     code x1 @ [JZ, int (length (code x2)) + 3] @ code x2 @
     [JMP, int (length (code x3)) + 1] @ code x3"
| "code (WHILE x1 x2) =
     code x1 @ [JZ, int (length (code x2)) + 3] @ code x2 @
     [JMP, - (int (length (code x1)) + int (length (code x2)) + 3)]"
| "code (DO x1 x2) =
     code x1 @ code x2 @ [JNZ, - (int (length (code x1)) + int (length (code x2)) + 1)]"
| "code EMPTY = []"
| "code (SEQ x1 x2) = code x1 @ code x2"
| "code (EXPR x1) = code x1 @ [IPOP]"
| "code (PROG x1) = code x1 @ [HALT]"

text \<open>
  From \<open>s\<close> to \<open>s'\<close> the code generator has written the bytes \<open>bs\<close> at \<open>here s\<close> and
  nothing before.
\<close>

definition emits :: "cstate \<Rightarrow> cstate \<Rightarrow> int list \<Rightarrow> bool" where
  "emits s s' bs =
     (here s' = here s + length bs \<and> here s' \<le> length (object s') \<and>
      length (object s') = length (object s) \<and>
      (\<forall>i<here s. object s' ! i = object s ! i) \<and>
      (\<forall>i<length bs. object s' ! (here s + i) = bs ! i))"

lemma emits_refl: "here s \<le> length (object s) \<Longrightarrow> emits s s []"
  by (simp add: emits_def)

lemma emits_g: "g b s = Inr s' \<Longrightarrow> emits s s' [b]"
  by (auto simp: emits_def dest!: g_Inr)

lemma emits_hole: "here s < length (object s) \<Longrightarrow> emits s (snd (hole s)) [object s ! here s]"
  by (simp add: emits_def hole_def)

lemma emits_trans:
  assumes "emits s s1 as" and "emits s1 s2 bs"
  shows "emits s s2 (as @ bs)"
proof -
  have h: "here s1 = here s + length as" "here s2 = here s1 + length bs"
    "here s2 \<le> length (object s2)" "length (object s1) = length (object s)"
    "length (object s2) = length (object s1)"
    and f1: "\<And>i. i < here s \<Longrightarrow> object s1 ! i = object s ! i"
    and f2: "\<And>i. i < here s1 \<Longrightarrow> object s2 ! i = object s1 ! i"
    and e1: "\<And>i. i < length as \<Longrightarrow> object s1 ! (here s + i) = as ! i"
    and e2: "\<And>i. i < length bs \<Longrightarrow> object s2 ! (here s1 + i) = bs ! i"
    using assms by (auto simp: emits_def)
  have "object s2 ! (here s + i) = (as @ bs) ! i" if "i < length (as @ bs)" for i
  proof (cases "i < length as")
    case True
    then show ?thesis using f2 [of "here s + i"] e1 [of i] h by (simp add: nth_append)
  next
    case False
    then show ?thesis
      using e2 [of "i - length as"] that h by (simp add: nth_append)
  qed
  moreover have "object s2 ! i = object s ! i" if "i < here s" for i
    using that f1 [of i] f2 [of i] h by simp
  ultimately show ?thesis
    using h by (simp add: emits_def)
qed

lemma emits_fix:
  assumes "emits s sB (as @ b # bs)" and "fix_jump p dst sB = Inr s'"
    and "p = here s + length as"
  shows "emits s s' (as @ (int dst - int p) # bs)"
proof -
  from assms(2) have len: "p < length (object sB)"
    and s': "s' = sB\<lparr>object := (object sB)[p := int dst - int p]\<rparr>"
    by (auto dest: fix_jump_Inr)
  have e: "\<And>i. i < length (as @ b # bs) \<Longrightarrow> object sB ! (here s + i) = (as @ b # bs) ! i"
    using assms(1) by (simp add: emits_def)
  have "object s' ! (here s + i) = (as @ (int dst - int p) # bs) ! i"
    if "i < length (as @ (int dst - int p) # bs)" for i
  proof (cases "i = length as")
    case True
    then show ?thesis using s' len assms(3) by simp
  next
    case False
    then show ?thesis
      using e [of i] that s' assms(3) by (auto simp: nth_append nth_Cons')
  qed
  then show ?thesis
    using assms(1,3) s' by (auto simp: emits_def)
qed


lemma emits_here: "emits s s' bs \<Longrightarrow> here s' = here s + length bs"
  by (simp add: emits_def)

lemma emits_le: "emits s s' bs \<Longrightarrow> here s' \<le> length (object s')"
  by (simp add: emits_def)

lemma c_length: "c x s = Inr s' \<Longrightarrow> length (object s') = length (object s)"
  using c_patched [of x s s'] by (simp add: patched_def)

lemma hole_simps [simp]: "fst (hole s) = here s" "here (snd (hole s)) = here s + 1"
  "object (snd (hole s)) = object s"
  by (simp_all add: hole_def)

lemma c_code: "c x s = Inr s' \<Longrightarrow> here s \<le> length (object s) \<Longrightarrow> emits s s' (code x)"
proof (induction x arbitrary: s s')
  case (VAR v)
  then show ?case
    by (auto split: sum.splits dest: emits_trans [OF emits_g emits_g])
next
  case (CST v)
  then show ?case
    by (auto split: sum.splits dest: emits_trans [OF emits_g emits_g])
next
  case (ADD x1 x2)
  from ADD.prems obtain s1 s2 where st: "c x1 s = Inr s1" "c x2 s1 = Inr s2" "g IADD s2 = Inr s'"
    by (auto split: sum.splits)
  note e1 = ADD.IH(1) [OF st(1) ADD.prems(2)]
  note e2 = ADD.IH(2) [OF st(2) emits_le [OF e1]]
  show ?case
    using emits_trans [OF e1 emits_trans [OF e2 emits_g [OF st(3)]]] by simp
next
  case (SUB x1 x2)
  from SUB.prems obtain s1 s2 where st: "c x1 s = Inr s1" "c x2 s1 = Inr s2" "g ISUB s2 = Inr s'"
    by (auto split: sum.splits)
  note e1 = SUB.IH(1) [OF st(1) SUB.prems(2)]
  note e2 = SUB.IH(2) [OF st(2) emits_le [OF e1]]
  show ?case
    using emits_trans [OF e1 emits_trans [OF e2 emits_g [OF st(3)]]] by simp
next
  case (LT x1 x2)
  from LT.prems obtain s1 s2 where st: "c x1 s = Inr s1" "c x2 s1 = Inr s2" "g ILT s2 = Inr s'"
    by (auto split: sum.splits)
  note e1 = LT.IH(1) [OF st(1) LT.prems(2)]
  note e2 = LT.IH(2) [OF st(2) emits_le [OF e1]]
  show ?case
    using emits_trans [OF e1 emits_trans [OF e2 emits_g [OF st(3)]]] by simp
next
  case (SET x1 x2)
  from SET.prems obtain s1 s2 v where st: "c x2 s = Inr s1" "g ISTORE s1 = Inr s2"
    "val x1 = Inr v" "g v s2 = Inr s'"
    by (auto split: sum.splits)
  note e1 = SET.IH(2) [OF st(1) SET.prems(2)]
  show ?case
    using emits_trans [OF e1 emits_trans [OF emits_g [OF st(2)] emits_g [OF st(4)]]] st(3)
    by simp
next
  case (IF1 x1 x2)
  from IF1.prems(1) obtain s1 s2 s4 where st: "c x1 s = Inr s1" "g JZ s1 = Inr s2"
    "c x2 (snd (hole s2)) = Inr s4" "fix_jump (fst (hole s2)) (here s4) s4 = Inr s'"
    by (rule c_IF1_E)
  let ?s3 = "snd (hole s2)"
  note e1 = IF1.IH(1) [OF st(1) IF1.prems(2)]
  note e2 = emits_g [OF st(2)]
  have room: "here s2 < length (object s2)"
    using fix_jump_Inr [OF st(4)] c_length [OF st(3)] by simp
  note e3 = emits_hole [OF room]
  have e4: "emits ?s3 s4 (code x2)"
    using IF1.IH(2) [OF st(3)] room by simp
  have all: "emits s s4 ((code x1 @ [JZ]) @ object s2 ! here s2 # code x2)"
    using emits_trans [OF emits_trans [OF e1 e2] emits_trans [OF e3 e4]] by simp
  have p: "here s2 = here s + length (code x1 @ [JZ])"
    using emits_here [OF e1] emits_here [OF e2] by simp
  have d: "int (here s4) - int (here s2) = int (length (code x2)) + 1"
    using emits_here [OF e4] by simp
  show ?case
    using emits_fix [OF all _ p, of "here s4" s'] st(4) d by simp
next
  case (IF2 x1 x2 x3)
  from IF2.prems(1) obtain s1 s2 s4 s5 s7 s8 where st: "c x1 s = Inr s1" "g JZ s1 = Inr s2"
    "c x2 (snd (hole s2)) = Inr s4" "g JMP s4 = Inr s5"
    "fix_jump (fst (hole s2)) (here (snd (hole s5))) (snd (hole s5)) = Inr s7"
    "c x3 s7 = Inr s8" "fix_jump (fst (hole s5)) (here s8) s8 = Inr s'"
    by (rule c_IF2_E)
  let ?s3 = "snd (hole s2)" and ?s6 = "snd (hole s5)"
  have s7: "s7 = ?s6\<lparr>object := (object ?s6)[here s2 := int (here ?s6) - int (here s2)]\<rparr>"
    using fix_jump_Inr [OF st(5)] by simp
  note e1 = IF2.IH(1) [OF st(1) IF2.prems(2)]
  note e2 = emits_g [OF st(2)]
  have l4: "length (object s4) = length (object s2)"
    using c_length [OF st(3)] by simp
  have l5: "length (object s5) = length (object s4)"
    using g_Inr [OF st(4)] by auto
  have room: "here s2 < length (object s2)"
    using fix_jump_Inr [OF st(5)] l4 l5 by simp
  note e3 = emits_hole [OF room]
  have e4: "emits ?s3 s4 (code x2)"
    using IF2.IH(2) [OF st(3)] room by simp
  note e5 = emits_g [OF st(4)]
  have room5: "here s5 < length (object s5)"
    using fix_jump_Inr [OF st(7)] c_length [OF st(6)] s7 by simp
  note e6 = emits_hole [OF room5]
  have all6: "emits s ?s6 ((code x1 @ [JZ]) @ object s2 ! here s2 #
                 (code x2 @ [JMP, object s5 ! here s5]))"
    using emits_trans [OF emits_trans [OF e1 e2]
            emits_trans [OF e3 emits_trans [OF e4 emits_trans [OF e5 e6]]]] by simp
  have p1: "here s2 = here s + length (code x1 @ [JZ])"
    using emits_here [OF e1] emits_here [OF e2] by simp
  have h6: "here ?s6 = here s2 + 1 + length (code x2) + 2"
    using emits_here [OF e4] emits_here [OF e5] by simp
  have upto7: "emits s s7 ((code x1 @ [JZ]) @ (int (length (code x2)) + 3) #
                 (code x2 @ [JMP, object s5 ! here s5]))"
    using emits_fix [OF all6 _ p1, of "here ?s6" s7] st(5) h6 by (simp add: add.commute)
  have e8: "emits s7 s8 (code x3)"
    using IF2.IH(3) [OF st(6)] emits_le [OF upto7] by simp
  have all8: "emits s s8 ((code x1 @ [JZ, int (length (code x2)) + 3] @ code x2 @ [JMP]) @
                 object s5 ! here s5 # code x3)"
    using emits_trans [OF upto7 e8] by simp
  have p2: "here s5 = here s + length (code x1 @ [JZ, int (length (code x2)) + 3] @ code x2 @ [JMP])"
    using p1 emits_here [OF e4] emits_here [OF e5] by simp
  have d: "int (here s8) - int (here s5) = int (length (code x3)) + 1"
    using emits_here [OF e8] s7 by simp
  show ?case
    using emits_fix [OF all8 _ p2, of "here s8" s'] st(7) d by simp
next
  case (WHILE x1 x2)
  from WHILE.prems(1) obtain s1 s2 s4 s5 s7 where st: "c x1 s = Inr s1" "g JZ s1 = Inr s2"
    "c x2 (snd (hole s2)) = Inr s4" "g JMP s4 = Inr s5"
    "fix_jump (fst (hole s5)) (here s) (snd (hole s5)) = Inr s7"
    "fix_jump (fst (hole s2)) (here s7) s7 = Inr s'"
    by (rule c_WHILE_E)
  let ?s3 = "snd (hole s2)" and ?s6 = "snd (hole s5)"
  have s7: "s7 = ?s6\<lparr>object := (object ?s6)[here s5 := int (here s) - int (here s5)]\<rparr>"
    using fix_jump_Inr [OF st(5)] by simp
  note e1 = WHILE.IH(1) [OF st(1) WHILE.prems(2)]
  note e2 = emits_g [OF st(2)]
  have l4: "length (object s4) = length (object s2)"
    using c_length [OF st(3)] by simp
  have l5: "length (object s5) = length (object s4)"
    using g_Inr [OF st(4)] by auto
  have room: "here s2 < length (object s2)"
    using fix_jump_Inr [OF st(6)] s7 l4 l5 by simp
  note e3 = emits_hole [OF room]
  have e4: "emits ?s3 s4 (code x2)"
    using WHILE.IH(2) [OF st(3)] room by simp
  note e5 = emits_g [OF st(4)]
  have room5: "here s5 < length (object s5)"
    using fix_jump_Inr [OF st(5)] by simp
  note e6 = emits_hole [OF room5]
  have all6: "emits s ?s6 ((code x1 @ [JZ, object s2 ! here s2] @ code x2 @ [JMP]) @
                 object s5 ! here s5 # [])"
    using emits_trans [OF emits_trans [OF e1 e2]
            emits_trans [OF e3 emits_trans [OF e4 emits_trans [OF e5 e6]]]] by simp
  have p1: "here s2 = here s + length (code x1 @ [JZ])"
    using emits_here [OF e1] emits_here [OF e2] by simp
  have p3: "here s5 = here s + length (code x1 @ [JZ, object s2 ! here s2] @ code x2 @ [JMP])"
    using p1 emits_here [OF e4] emits_here [OF e5] by simp
  have d3: "int (here s) - int (here s5) = - (int (length (code x1)) + int (length (code x2)) + 3)"
    using p3 by simp
  have upto7: "emits s s7 ((code x1 @ [JZ]) @ object s2 ! here s2 #
                 (code x2 @ [JMP, - (int (length (code x1)) + int (length (code x2)) + 3)]))"
    using emits_fix [OF all6 _ p3, of "here s" s7] st(5) d3 by simp
  have d2: "int (here s7) - int (here s2) = int (length (code x2)) + 3"
    using s7 emits_here [OF e4] emits_here [OF e5] by simp
  show ?case
    using emits_fix [OF upto7 _ p1, of "here s7" s'] st(6) d2 by simp
next
  case (DO x1 x2)
  from DO.prems(1) obtain s1 s2 s3 where st: "c x1 s = Inr s1" "c x2 s1 = Inr s2"
    "g JNZ s2 = Inr s3" "fix_jump (fst (hole s3)) (here s) (snd (hole s3)) = Inr s'"
    by (rule c_DO_E)
  note e1 = DO.IH(1) [OF st(1) DO.prems(2)]
  note e2 = DO.IH(2) [OF st(2) emits_le [OF e1]]
  note e3 = emits_g [OF st(3)]
  have room: "here s3 < length (object s3)"
    using fix_jump_Inr [OF st(4)] by simp
  note e4 = emits_hole [OF room]
  have all: "emits s (snd (hole s3)) ((code x1 @ code x2 @ [JNZ]) @ object s3 ! here s3 # [])"
    using emits_trans [OF e1 emits_trans [OF e2 emits_trans [OF e3 e4]]] by simp
  have p: "here s3 = here s + length (code x1 @ code x2 @ [JNZ])"
    using emits_here [OF e1] emits_here [OF e2] emits_here [OF e3] by simp
  have d: "int (here s) - int (here s3) = - (int (length (code x1)) + int (length (code x2)) + 1)"
    using p by simp
  show ?case
    using emits_fix [OF all _ p, of "here s" s'] st(4) d by simp
next
  case EMPTY
  then show ?case by (simp add: emits_refl)
next
  case (SEQ x1 x2)
  from SEQ.prems obtain s1 where st: "c x1 s = Inr s1" "c x2 s1 = Inr s'"
    by (auto split: sum.splits)
  note e1 = SEQ.IH(1) [OF st(1) SEQ.prems(2)]
  note e2 = SEQ.IH(2) [OF st(2) emits_le [OF e1]]
  show ?case
    using emits_trans [OF e1 e2] by simp
next
  case (EXPR x)
  from EXPR.prems obtain s1 where st: "c x s = Inr s1" "g IPOP s1 = Inr s'"
    by (auto split: sum.splits)
  show ?case
    using emits_trans [OF EXPR.IH [OF st(1) EXPR.prems(2)] emits_g [OF st(2)]] by simp
next
  case (PROG x)
  from PROG.prems obtain s1 where st: "c x s = Inr s1" "g HALT s1 = Inr s'"
    by (auto split: sum.splits)
  show ?case
    using emits_trans [OF PROG.IH [OF st(1) PROG.prems(2)] emits_g [OF st(2)]] by simp
qed


text \<open>The bytes between the emission position before and after a compilation.\<close>

definition emitted :: "cstate \<Rightarrow> cstate \<Rightarrow> int list" where
  "emitted s s' = take (here s' - here s) (drop (here s) (object s'))"

lemma emits_emitted: "emits s s' bs \<Longrightarrow> emitted s s' = bs"
  by (rule nth_equalityI) (auto simp: emits_def emitted_def)

lemma g_full: "length (object s) \<le> here s \<Longrightarrow> g b s = Inl IndexError"
  by (simp add: g_def)

lemma c_full:
  "c x s = Inr s' \<Longrightarrow> length (object s) \<le> here s \<Longrightarrow> s' = s \<and> code x = []"
proof (induction x arbitrary: s s')
  case (IF1 x1 x2)
  from IF1.prems(1) obtain s1 s2 where st: "c x1 s = Inr s1" "g JZ s1 = Inr s2"
    by (rule c_IF1_E)
  from IF1.IH(1) [OF st(1) IF1.prems(2)] st(2) IF1.prems(2) show ?case by (simp add: g_full)
next
  case (IF2 x1 x2 x3)
  from IF2.prems(1) obtain s1 s2 where st: "c x1 s = Inr s1" "g JZ s1 = Inr s2"
    by (rule c_IF2_E)
  from IF2.IH(1) [OF st(1) IF2.prems(2)] st(2) IF2.prems(2) show ?case by (simp add: g_full)
next
  case (WHILE x1 x2)
  from WHILE.prems(1) obtain s1 s2 where st: "c x1 s = Inr s1" "g JZ s1 = Inr s2"
    by (rule c_WHILE_E)
  from WHILE.IH(1) [OF st(1) WHILE.prems(2)] st(2) WHILE.prems(2) show ?case by (simp add: g_full)
next
  case (DO x1 x2)
  from DO.prems(1) obtain s1 s2 s3 where st: "c x1 s = Inr s1" "c x2 s1 = Inr s2" "g JNZ s2 = Inr s3"
    by (rule c_DO_E)
  from DO.IH(1) [OF st(1) DO.prems(2)] have s1: "s1 = s" by simp
  from DO.IH(2) [OF st(2)] s1 DO.prems(2) st(3) show ?case by (simp add: g_full)
next
  case (ADD x1 x2)
  from ADD.prems(1) obtain s1 s2 where st: "c x1 s = Inr s1" "c x2 s1 = Inr s2" "g IADD s2 = Inr s'"
    by (auto split: sum.splits)
  from ADD.IH(1) [OF st(1) ADD.prems(2)] have s1: "s1 = s" by simp
  from ADD.IH(2) [OF st(2)] s1 ADD.prems(2) st(3) show ?case by (simp add: g_full)
next
  case (SUB x1 x2)
  from SUB.prems(1) obtain s1 s2 where st: "c x1 s = Inr s1" "c x2 s1 = Inr s2" "g ISUB s2 = Inr s'"
    by (auto split: sum.splits)
  from SUB.IH(1) [OF st(1) SUB.prems(2)] have s1: "s1 = s" by simp
  from SUB.IH(2) [OF st(2)] s1 SUB.prems(2) st(3) show ?case by (simp add: g_full)
next
  case (LT x1 x2)
  from LT.prems(1) obtain s1 s2 where st: "c x1 s = Inr s1" "c x2 s1 = Inr s2" "g ILT s2 = Inr s'"
    by (auto split: sum.splits)
  from LT.IH(1) [OF st(1) LT.prems(2)] have s1: "s1 = s" by simp
  from LT.IH(2) [OF st(2)] s1 LT.prems(2) st(3) show ?case by (simp add: g_full)
next
  case (SET x1 x2)
  from SET.prems(1) obtain s1 s2 where st: "c x2 s = Inr s1" "g ISTORE s1 = Inr s2"
    by (auto split: sum.splits)
  from SET.IH(2) [OF st(1) SET.prems(2)] st(2) SET.prems(2) show ?case by (simp add: g_full)
next
  case (SEQ x1 x2)
  from SEQ.prems(1) obtain s1 where st: "c x1 s = Inr s1" "c x2 s1 = Inr s'"
    by (auto split: sum.splits)
  from SEQ.IH(1) [OF st(1) SEQ.prems(2)] have s1: "s1 = s" "code x1 = []" by simp_all
  from SEQ.IH(2) [OF st(2)] s1 SEQ.prems(2) show ?case by simp
next
  case (EXPR x)
  from EXPR.prems(1) obtain s1 where st: "c x s = Inr s1" "g IPOP s1 = Inr s'"
    by (auto split: sum.splits)
  from EXPR.IH [OF st(1) EXPR.prems(2)] st(2) EXPR.prems(2) show ?case by (simp add: g_full)
next
  case (PROG x)
  from PROG.prems(1) obtain s1 where st: "c x s = Inr s1" "g HALT s1 = Inr s'"
    by (auto split: sum.splits)
  from PROG.IH [OF st(1) PROG.prems(2)] st(2) PROG.prems(2) show ?case by (simp add: g_full)
qed (auto simp: g_full split: sum.splits)

lemma c_emitted: "c x s = Inr s' \<Longrightarrow> emitted s s' = code x"
proof (cases "here s \<le> length (object s)")
  case True
  assume "c x s = Inr s'"
  from emits_emitted [OF c_code [OF this True]] show ?thesis .
next
  case False
  assume "c x s = Inr s'"
  from c_full [OF this] False show ?thesis by (simp add: emitted_def)
qed

text \<open>
  C9. Compiling the same tree twice gives the same bytes, patched displacements included:
  whatever the buffer held before and wherever emission starts, two compilations of \<open>x\<close>
  that both finish have emitted identical byte sequences.
\<close>

theorem compile_deterministic:
  assumes "c x s1 = Inr s1'" and "c x s2 = Inr s2'"
  shows "emitted s1 s1' = emitted s2 s2'"
  using c_emitted [OF assms(1)] c_emitted [OF assms(2)] by simp

theorem compile_deterministic_witness:
  "c (IF1 (VAR 0) (EXPR (SET (VAR 1) (CST 1)))) \<lparr>object = replicate 10 0, here = 0\<rparr>
     = Inr \<lparr>object = [0, 0, 7, 6, 2, 1, 1, 1, 3, 0], here = 9\<rparr> \<and>
   c (IF1 (VAR 0) (EXPR (SET (VAR 1) (CST 1)))) \<lparr>object = replicate 12 9, here = 2\<rparr>
     = Inr \<lparr>object = [9, 9, 0, 0, 7, 6, 2, 1, 1, 1, 3, 9], here = 11\<rparr> \<and>
   emitted \<lparr>object = replicate 10 0, here = 0\<rparr>
       \<lparr>object = [0, 0, 7, 6, 2, 1, 1, 1, 3, 0], here = 9\<rparr>
     = emitted \<lparr>object = replicate 12 9, here = 2\<rparr>
         \<lparr>object = [9, 9, 0, 0, 7, 6, 2, 1, 1, 1, 3, 9], here = 11\<rparr>"
proof -
  have a: "c (IF1 (VAR 0) (EXPR (SET (VAR 1) (CST 1)))) \<lparr>object = replicate 10 0, here = 0\<rparr>
     = Inr \<lparr>object = [0, 0, 7, 6, 2, 1, 1, 1, 3, 0], here = 9\<rparr>"
    by code_simp
  have b: "c (IF1 (VAR 0) (EXPR (SET (VAR 1) (CST 1)))) \<lparr>object = replicate 12 9, here = 2\<rparr>
     = Inr \<lparr>object = [9, 9, 0, 0, 7, 6, 2, 1, 1, 1, 3, 9], here = 11\<rparr>"
    by code_simp
  from compile_deterministic [OF a b] a b show ?thesis
    by simp
qed

end
